theory Spec2Isabelle
  imports Main "HOL-Library.Word"
begin

section \<open>Strings of the source language\<close>

text \<open>
  The programs are TypeScript. A string is a sequence of UTF-16 code units, indexing
  (\<open>text[i]\<close>) yields one code unit, and every comparison in the parsers is with a
  one-unit string. A code unit is a 16-bit word, a string a list of them.
\<close>

type_synonym unit16 = "16 word"
type_synonym jsstring = "unit16 list"

text \<open>Writing a string literal of the model: the code units of an ASCII (Latin-1) text.\<close>

definition js :: "string \<Rightarrow> jsstring" where
  "js s = map (\<lambda>c. of_nat (of_char c)) s"

definition DQUOTE :: unit16 where "DQUOTE = 0x22"
definition COMMA :: unit16 where "COMMA = 0x2C"
definition NL :: unit16 where "NL = 0x0A"
definition CR :: unit16 where "CR = 0x0D"

text \<open>
  \<open>String.prototype.trim\<close> removes, at both ends, the code units that ECMAScript calls
  WhiteSpace or LineTerminator: TAB, LF, VT, FF, CR, SP, NBSP, U+1680, U+2000 to U+200A,
  LS (U+2028), PS (U+2029), U+202F, U+205F, U+3000 and the byte order mark U+FEFF.
\<close>

definition isWhiteSpace :: "unit16 \<Rightarrow> bool" where
  "isWhiteSpace c \<longleftrightarrow>
     c = 0x09 \<or> c = 0x0A \<or> c = 0x0B \<or> c = 0x0C \<or> c = 0x0D \<or> c = 0x20 \<or> c = 0xA0 \<or>
     c = 0x1680 \<or> (0x2000 \<le> c \<and> c \<le> 0x200A) \<or> c = 0x2028 \<or> c = 0x2029 \<or>
     c = 0x202F \<or> c = 0x205F \<or> c = 0x3000 \<or> c = 0xFEFF"

definition trim :: "jsstring \<Rightarrow> jsstring" where
  "trim s = rev (dropWhile isWhiteSpace (rev (dropWhile isWhiteSpace s)))"

section \<open>The table parser: \<open>parseCSV\<close> of the component \<open>CSVDataTable\<close>\<close>

text \<open>
  The local variables of \<open>parseCSV\<close> (\<open>rows\<close>, \<open>current\<close>, \<open>inQuotes\<close>, \<open>currentRow\<close>)
  are the state of its loop.
\<close>

record pstate =
  rows :: "jsstring list list"
  current :: jsstring
  inQuotes :: bool
  currentRow :: "jsstring list"

text \<open>
  \<open>nextChar = text[i + 1]\<close>, read from the text that follows the current unit; past the
  end of the string the source gets \<open>undefined\<close>, here \<open>None\<close>.
\<close>

definition nextChar :: "jsstring \<Rightarrow> unit16 option" where
  "nextChar cs = (case cs of [] \<Rightarrow> None | d # _ \<Rightarrow> Some d)"

text \<open>\<open>currentRow.some(cell => cell.length > 0)\<close>\<close>

definition someCell :: "jsstring list \<Rightarrow> bool" where
  "someCell row = list_ex (\<lambda>cell. length cell > 0) row"

text \<open>
  The end-of-row branch: the field is pushed trimmed, the row is kept when one of its
  cells is not empty, and row and field start afresh.
\<close>

definition endRow :: "pstate \<Rightarrow> pstate" where
  "endRow s =
     (let row = currentRow s @ [trim (current s)]
      in s\<lparr>rows := (if someCell row then rows s @ [row] else rows s),
            currentRow := [], current := []\<rparr>)"

text \<open>
  The \<open>for\<close> loop, as a recursion on the text not yet read: the first unit is \<open>char\<close>.
  The two \<open>i++\<close> of the body skip one more unit.
\<close>

function scan :: "jsstring \<Rightarrow> pstate \<Rightarrow> pstate" where
  "scan [] s = s"
| "scan (c # cs) s =
     (if c = DQUOTE then
        (if inQuotes s \<and> nextChar cs = Some DQUOTE
         then scan (tl cs) (s\<lparr>current := current s @ [DQUOTE]\<rparr>)
         else scan cs (s\<lparr>inQuotes := \<not> inQuotes s\<rparr>))
      else if c = COMMA \<and> \<not> inQuotes s then
        scan cs (s\<lparr>currentRow := currentRow s @ [trim (current s)], current := []\<rparr>)
      else if (c = NL \<or> c = CR) \<and> \<not> inQuotes s then
        scan (if c = CR \<and> nextChar cs = Some NL then tl cs else cs) (endRow s)
      else scan cs (s\<lparr>current := current s @ [c]\<rparr>))"
  by pat_completeness auto
termination
  by (relation "measure (\<lambda>(t, s). length t)") auto

definition initial :: pstate where
  "initial = \<lparr>rows = [], current = [], inQuotes = False, currentRow = []\<rparr>"

text \<open>The code after the loop: the last row, when the text does not end with a newline.\<close>

definition finish :: "pstate \<Rightarrow> jsstring list list" where
  "finish s =
     (if current s \<noteq> [] \<or> length (currentRow s) > 0 then
        (let row = currentRow s @ [trim (current s)]
         in if someCell row then rows s @ [row] else rows s)
      else rows s)"

definition parseCSV :: "jsstring \<Rightarrow> jsstring list list" where
  "parseCSV text = finish (scan text initial)"

section \<open>The record parser: \<open>parseCSV\<close> of the component \<open>LiveResponsesTable\<close>\<close>

text \<open>
  The second component has a \<open>parseCSV\<close> of its own, here \<open>parseCSV_live\<close>. It cuts
  the text into lines, cuts each line into fields, and turns every line after the first
  into an object keyed by the fields of the first.
\<close>

record lstate =
  lines :: "jsstring list"
  currentLine :: jsstring
  insideQuote :: bool

text \<open>The first loop. A quote flips \<open>insideQuote\<close> and is kept in the line.\<close>

fun lineLoop :: "jsstring \<Rightarrow> lstate \<Rightarrow> lstate" where
  "lineLoop [] s = s"
| "lineLoop (c # cs) s =
     (if c = DQUOTE then
        lineLoop cs (s\<lparr>insideQuote := \<not> insideQuote s, currentLine := currentLine s @ [c]\<rparr>)
      else if c = NL \<and> \<not> insideQuote s then
        lineLoop cs
          (s\<lparr>lines := (if trim (currentLine s) \<noteq> [] then lines s @ [trim (currentLine s)]
                        else lines s),
             currentLine := []\<rparr>)
      else lineLoop cs (s\<lparr>currentLine := currentLine s @ [c]\<rparr>))"

definition linesOf :: "jsstring \<Rightarrow> jsstring list" where
  "linesOf csvText =
     (let s = lineLoop csvText \<lparr>lines = [], currentLine = [], insideQuote = False\<rparr>
      in if trim (currentLine s) \<noteq> [] then lines s @ [trim (currentLine s)] else lines s)"

text \<open>
  \<open>.replace(/^"(.*)"$/, '$1')\<close>: the pattern matches a whole string that starts and ends
  with a quote (two different units) and has no line terminator between them, since the
  dot matches every unit but LF, CR, LS and PS; the string is then replaced by what is
  between the two quotes.
\<close>

definition isLineTerminator :: "unit16 \<Rightarrow> bool" where
  "isLineTerminator c \<longleftrightarrow> c = 0x0A \<or> c = 0x0D \<or> c = 0x2028 \<or> c = 0x2029"

definition unwrap :: "jsstring \<Rightarrow> jsstring" where
  "unwrap s =
     (if 2 \<le> length s \<and> hd s = DQUOTE \<and> last s = DQUOTE \<and>
         \<not> list_ex isLineTerminator (butlast (tl s))
      then butlast (tl s) else s)"

record fstate =
  fieldsF :: "jsstring list"
  currentField :: jsstring
  insideQuoteF :: bool

text \<open>The loop of the function mapped over the lines (its \<open>fields\<close> and \<open>insideQuote\<close> carry a suffix here).\<close>

fun fieldLoop :: "jsstring \<Rightarrow> fstate \<Rightarrow> fstate" where
  "fieldLoop [] s = s"
| "fieldLoop (c # cs) s =
     (if c = DQUOTE then
        fieldLoop cs (s\<lparr>insideQuoteF := \<not> insideQuoteF s, currentField := currentField s @ [c]\<rparr>)
      else if c = COMMA \<and> \<not> insideQuoteF s then
        fieldLoop cs
          (s\<lparr>fieldsF := fieldsF s @ [unwrap (trim (currentField s))], currentField := []\<rparr>)
      else fieldLoop cs (s\<lparr>currentField := currentField s @ [c]\<rparr>))"

definition parseLine :: "jsstring \<Rightarrow> jsstring list" where
  "parseLine line =
     (let s = fieldLoop line \<lparr>fieldsF = [], currentField = [], insideQuoteF = False\<rparr>
      in fieldsF s @ [unwrap (trim (currentField s))])"

definition parsedLines :: "jsstring \<Rightarrow> jsstring list list" where
  "parsedLines csvText = map parseLine (linesOf csvText)"

text \<open>
  A \<open>TableRow\<close> is an object created by \<open>{}\<close>: a finite map from property names to
  strings. The assignment \<open>rowObject[header] = v\<close> creates or overwrites the property,
  except for the name \<open>__proto__\<close>: that name is an accessor inherited from
  \<open>Object.prototype\<close>, whose setter ignores a string, so no property is created.
\<close>

type_synonym TableRow = "jsstring \<rightharpoonup> jsstring"

definition assign :: "TableRow \<Rightarrow> jsstring \<Rightarrow> jsstring \<Rightarrow> TableRow" where
  "assign obj key v = (if key = js ''__proto__'' then obj else obj(key \<mapsto> v))"

text \<open>\<open>row[index] || ''\<close>: past the end of the row the read is \<open>undefined\<close>, hence \<open>''\<close>.\<close>

definition cellOr :: "jsstring list \<Rightarrow> nat \<Rightarrow> jsstring" where
  "cellOr row index = (if index < length row then row ! index else [])"

definition rowObject :: "jsstring list \<Rightarrow> jsstring list \<Rightarrow> TableRow" where
  "rowObject headers row =
     foldl (\<lambda>obj (header, index). assign obj header (cellOr row index)) Map.empty
       (zip headers [0..<length headers])"

definition parseCSV_live :: "jsstring \<Rightarrow> TableRow list" where
  "parseCSV_live csvText =
     (if length (linesOf csvText) = 0 then []
      else if length (parsedLines csvText) < 2 then []
      else map (rowObject (hd (parsedLines csvText))) (tl (parsedLines csvText)))"

section \<open>The form validator\<close>

text \<open>
  The form of \<open>BackupMentorForm\<close> holds six strings; the component creates the record
  with these fields and addresses them by name (\<open>keyof FormData\<close>).
\<close>

record FormData =
  email :: jsstring
  name :: jsstring
  major :: jsstring
  year :: jsstring
  mentorGoals :: jsstring
  hobbies :: jsstring

datatype field = Email | Name | Major | Year | MentorGoals | Hobbies

definition fieldValue :: "FormData \<Rightarrow> field \<Rightarrow> jsstring" where
  "fieldValue d f =
     (case f of Email \<Rightarrow> email d | Name \<Rightarrow> name d | Major \<Rightarrow> major d | Year \<Rightarrow> year d
      | MentorGoals \<Rightarrow> mentorGoals d | Hobbies \<Rightarrow> hobbies d)"

text \<open>
  Modelled from the spec: the error messages of \<open>validateForm\<close>. The module
  \<open>utils/formValidation\<close> is not among the sources and the specification does not give
  the wording of a message, only the two rules that produce one: a field is required,
  and the email must be an institutional address.
\<close>

datatype message = Required | NotInstitutional

type_synonym FormErrors = "field \<rightharpoonup> message"

text \<open>
  Modelled from the spec: the institutional address pattern used by \<open>validateForm\<close>,
  which is in the missing module \<open>utils/formValidation\<close>. The specification describes
  it as a local part, then \<open>@\<close>, then a specific domain, and its examples accept
  \<open>abc1234@rit.edu\<close> and reject \<open>abc1234@gmail.com\<close>: a non-empty local part followed by
  \<open>@rit.edu\<close>.
\<close>

definition institutional :: "jsstring \<Rightarrow> bool" where
  "institutional s \<longleftrightarrow>
     length (js ''@rit.edu'') < length s \<and>
     drop (length s - length (js ''@rit.edu'')) s = js ''@rit.edu''"

text \<open>
  Modelled from the spec: the presence rule of \<open>validateForm\<close> (missing module
  \<open>utils/formValidation\<close>): a field that is empty after trimming gets an error.
\<close>

definition requireField :: "FormData \<Rightarrow> field \<Rightarrow> FormErrors \<Rightarrow> FormErrors" where
  "requireField d f errors =
     (if trim (fieldValue d f) = [] then errors(f \<mapsto> Required) else errors)"

text \<open>
  Modelled from the spec: \<open>validateForm\<close> of the missing module
  \<open>utils/formValidation\<close>, which \<open>BackupMentorForm\<close> imports and calls in
  \<open>handleSubmit\<close>. Per the specification it starts from no errors and records one for
  every field that is empty after trimming, and one for an email that is not empty but
  does not match the institutional pattern.
\<close>

definition validateForm :: "FormData \<Rightarrow> FormErrors" where
  "validateForm d =
     (let errors = Map.empty;
          errors = (if trim (email d) = [] then errors(Email \<mapsto> Required)
                    else if \<not> institutional (email d) then errors(Email \<mapsto> NotInstitutional)
                    else errors);
          errors = requireField d Name errors;
          errors = requireField d Major errors;
          errors = requireField d Year errors;
          errors = requireField d MentorGoals errors;
          errors = requireField d Hobbies errors
      in errors)"

text \<open>
  Modelled from the spec: the specification's notion of an invalid field, in its own
  words: empty after trimming, or, for the email, not matching the institutional pattern.
\<close>

definition invalid :: "FormData \<Rightarrow> field \<Rightarrow> bool" where
  "invalid d f \<longleftrightarrow> trim (fieldValue d f) = [] \<or> (f = Email \<and> \<not> institutional (email d))"

text \<open>A filled-in form, for the examples.\<close>

definition sampleForm :: FormData where
  "sampleForm = \<lparr>email = js ''abc1234@rit.edu'', name = js ''Ada'', major = js ''CS'',
     year = js ''First Year'', mentorGoals = js ''help'', hobbies = js ''chess''\<rparr>"

section \<open>Auxiliary notions of the statements\<close>

text \<open>
  What a CSV writer does to the content of a quoted field: every quote is doubled. It is
  no part of the programs; the statements about quoted fields are phrased with it.
\<close>

definition escape :: "jsstring \<Rightarrow> jsstring" where
  "escape x = concat (map (\<lambda>c. if c = DQUOTE then [DQUOTE, DQUOTE] else [c]) x)"

text \<open>
  Fields free of line breaks, and the states of the table parser outside a quoted field
  whose fields are free of them.
\<close>

definition cellsClean :: "jsstring list \<Rightarrow> bool" where
  "cellsClean row = list_all (\<lambda>cell. CR \<notin> set cell \<and> NL \<notin> set cell) row"

definition stClean :: "pstate \<Rightarrow> bool" where
  "stClean s \<longleftrightarrow> \<not> inQuotes s \<and> list_all cellsClean (rows s) \<and> cellsClean (currentRow s)
     \<and> CR \<notin> set (current s) \<and> NL \<notin> set (current s)"

text \<open>
  Fields that \<open>trim\<close> leaves unchanged, and the states whose stored rows are kept rows
  of such fields.
\<close>

definition trimmed :: "jsstring \<Rightarrow> bool" where
  "trimmed cell \<longleftrightarrow> trim cell = cell"

definition stTrimmed :: "pstate \<Rightarrow> bool" where
  "stTrimmed s \<longleftrightarrow>
     list_all (\<lambda>row. someCell row \<and> list_all trimmed row) (rows s) \<and>
     list_all trimmed (currentRow s)"





















section \<open>Evaluation and basic facts\<close>

lemmas unit_defs = DQUOTE_def COMMA_def NL_def CR_def
lemmas eval_defs = parseCSV_def finish_def initial_def endRow_def someCell_def
  nextChar_def trim_def isWhiteSpace_def js_def unit_defs
lemmas live_defs = parseCSV_live_def parsedLines_def parseLine_def linesOf_def unwrap_def
  isLineTerminator_def rowObject_def assign_def cellOr_def trim_def isWhiteSpace_def js_def
  unit_defs

subsection \<open>Trimming\<close>

lemma dropWhile_fix_iff: "dropWhile P ys = ys \<longleftrightarrow> (ys = [] \<or> \<not> P (hd ys))"
proof (cases ys)
  case Nil then show ?thesis by simp
next
  case (Cons a as)
  have "length (dropWhile P as) \<le> length as" by (rule length_dropWhile_le)
  then have "dropWhile P as \<noteq> a # as" by auto
  then show ?thesis using Cons by simp
qed

lemma dropWhile_rev_fix:
  assumes "dropWhile P ys = ys"
  shows "dropWhile P (rev (dropWhile P (rev ys))) = rev (dropWhile P (rev ys))"
proof (cases "dropWhile P (rev ys)")
  case Nil show ?thesis unfolding Nil by simp
next
  case (Cons z zs)
  have "rev ys = takeWhile P (rev ys) @ z # zs" using Cons by (metis takeWhile_dropWhile_id)
  then have ys: "ys = rev (z # zs) @ rev (takeWhile P (rev ys))" by (metis rev_append rev_rev_ident)
  have "rev (z # zs) \<noteq> []" by simp
  then have "hd (rev (z # zs)) = hd ys" using ys by (metis hd_append2)
  moreover have "ys \<noteq> []" using ys by auto
  ultimately have "\<not> P (hd (rev (z # zs)))" using assms dropWhile_fix_iff by metis
  then show ?thesis using Cons dropWhile_fix_iff by metis
qed

lemma trim_idem: "trim (trim s) = trim s"
  by (simp add: trim_def dropWhile_rev_fix)

lemma trim_Nil: "trim [] = []"
  by (simp add: trim_def)

lemma set_trim: "x \<in> set (trim s) \<Longrightarrow> x \<in> set s"
  unfolding trim_def by (auto dest!: set_dropWhileD)

lemma ws_NL: "isWhiteSpace NL"
  by (simp add: isWhiteSpace_def NL_def)
lemma ws_CR: "isWhiteSpace CR"
  by (simp add: isWhiteSpace_def CR_def)

lemma trim_snoc_ws: "isWhiteSpace w \<Longrightarrow> trim (s @ [w]) = trim s"
proof -
  assume w: "isWhiteSpace w"
  show ?thesis
  proof (cases "\<forall>x\<in>set s. isWhiteSpace x")
    case True
    then have "dropWhile isWhiteSpace s = []" "dropWhile isWhiteSpace (s @ [w]) = []"
      using w by simp_all
    then show ?thesis unfolding trim_def by (simp only:)
  next
    case False
    then obtain y where "y \<in> set s" "\<not> isWhiteSpace y" by blast
    then have "dropWhile isWhiteSpace (s @ [w]) = dropWhile isWhiteSpace s @ [w]"
      by (rule dropWhile_append1)
    then show ?thesis using w by (simp add: trim_def)
  qed
qed

subsection \<open>The loop of the table parser\<close>

lemma units_distinct:
  "DQUOTE \<noteq> COMMA" "DQUOTE \<noteq> NL" "DQUOTE \<noteq> CR" "COMMA \<noteq> NL" "COMMA \<noteq> CR" "NL \<noteq> CR"
  "COMMA \<noteq> DQUOTE" "NL \<noteq> DQUOTE" "CR \<noteq> DQUOTE" "NL \<noteq> COMMA" "CR \<noteq> COMMA" "CR \<noteq> NL"
  by (simp_all add: unit_defs)

lemma scan_quoted_content:
  "inQuotes s \<Longrightarrow> nextChar rest \<noteq> Some DQUOTE \<Longrightarrow>
   scan (escape x @ DQUOTE # rest) s = scan rest (s\<lparr>current := current s @ x, inQuotes := False\<rparr>)"
proof (induction x arbitrary: s)
  case Nil
  then show ?case by (simp add: escape_def)
next
  case (Cons c x)
  show ?case
  proof (cases "c = DQUOTE")
    case True
    have "scan (escape (c # x) @ DQUOTE # rest) s
        = scan (escape x @ DQUOTE # rest) (s\<lparr>current := current s @ [DQUOTE]\<rparr>)"
      using True Cons.prems by (simp add: escape_def nextChar_def)
    also have "\<dots> = scan rest (s\<lparr>current := current s @ [DQUOTE], current := (current s @ [DQUOTE]) @ x, inQuotes := False\<rparr>)"
      using Cons.IH [of "s\<lparr>current := current s @ [DQUOTE]\<rparr>"] Cons.prems by simp
    finally show ?thesis using True by simp
  next
    case False
    have "scan (escape (c # x) @ DQUOTE # rest) s
        = scan (escape x @ DQUOTE # rest) (s\<lparr>current := current s @ [c]\<rparr>)"
      using False Cons.prems by (simp add: escape_def)
    also have "\<dots> = scan rest (s\<lparr>current := current s @ [c], current := (current s @ [c]) @ x, inQuotes := False\<rparr>)"
      using Cons.IH [of "s\<lparr>current := current s @ [c]\<rparr>"] Cons.prems by simp
    finally show ?thesis by simp
  qed
qed

lemma escape_id: "DQUOTE \<notin> set x \<Longrightarrow> escape x = x"
  by (induction x) (auto simp: escape_def)

lemma set_tl_subset: "x \<in> set (tl cs) \<Longrightarrow> x \<in> set cs"
  by (cases cs) simp_all

lemma clean_trim: "CR \<notin> set x \<and> NL \<notin> set x \<Longrightarrow> CR \<notin> set (trim x) \<and> NL \<notin> set (trim x)"
  using set_trim by blast

lemma endRow_clean: "stClean s \<Longrightarrow> stClean (endRow s)"
  using clean_trim [of "current s"] by (simp add: stClean_def endRow_def cellsClean_def Let_def)

lemma scan_clean: "DQUOTE \<notin> set inp \<Longrightarrow> stClean s \<Longrightarrow> stClean (scan inp s)"
proof (induction inp s rule: scan.induct)
  case (1 s)
  then show ?case by simp
next
  case (2 c cs s)
  have nq: "c \<noteq> DQUOTE" "DQUOTE \<notin> set cs" "DQUOTE \<notin> set (tl cs)"
    using "2.prems"(1) by (auto dest: set_tl_subset)
  have niq: "\<not> inQuotes s" using "2.prems"(2) by (simp add: stClean_def)
  show ?case
  proof (cases "c = COMMA")
    case True
    have "stClean (s\<lparr>currentRow := currentRow s @ [trim (current s)], current := []\<rparr>)"
      using "2.prems"(2) clean_trim [of "current s"] by (simp add: stClean_def cellsClean_def)
    then show ?thesis using True nq niq "2.IH"(3) by simp
  next
    case notcomma: False
    show ?thesis
    proof (cases "c = NL \<or> c = CR")
      case True
      have "stClean (endRow s)" using "2.prems"(2) by (rule endRow_clean)
      then show ?thesis using True nq niq notcomma "2.IH"(4) by auto
    next
      case False
      have "stClean (s\<lparr>current := current s @ [c]\<rparr>)"
        using "2.prems"(2) False by (auto simp add: stClean_def)
      then show ?thesis using False nq niq notcomma "2.IH"(5) by simp
    qed
  qed
qed

lemma list_all_someCell_snoc: "someCell (r @ [x]) \<longleftrightarrow> someCell r \<or> x \<noteq> []"
  by (auto simp: someCell_def list_ex_iff)

lemma endRow_trimmed: "stTrimmed s \<Longrightarrow> stTrimmed (endRow s)"
  by (simp add: stTrimmed_def endRow_def Let_def trimmed_def trim_idem)

lemma scan_trimmed: "stTrimmed s \<Longrightarrow> stTrimmed (scan inp s)"
proof (induction inp s rule: scan.induct)
  case (1 s)
  then show ?case by simp
next
  case (2 c cs s)
  have a: "stTrimmed (s\<lparr>current := x\<rparr>)" for x using "2.prems" by (simp add: stTrimmed_def)
  have b: "stTrimmed (s\<lparr>inQuotes := x\<rparr>)" for x using "2.prems" by (simp add: stTrimmed_def)
  have c: "stTrimmed (s\<lparr>currentRow := currentRow s @ [trim (current s)], current := []\<rparr>)"
    using "2.prems" by (simp add: stTrimmed_def trimmed_def trim_idem)
  have d: "stTrimmed (endRow s)" using "2.prems" by (rule endRow_trimmed)
  show ?case using a b c d "2.IH" by auto
qed

lemma parseCSV_trimmed:
  "list_all (\<lambda>row. someCell row \<and> list_all trimmed row) (parseCSV inp)"
proof -
  have "stTrimmed initial" by (simp add: stTrimmed_def initial_def)
  then have c: "stTrimmed (scan inp initial)" by (rule scan_trimmed)
  then have "stTrimmed (endRow (scan inp initial))" by (rule endRow_trimmed)
  then show ?thesis using c
    by (auto simp add: parseCSV_def finish_def endRow_def stTrimmed_def Let_def)
qed

lemma scan_unterminated:
  "inQuotes s \<Longrightarrow> DQUOTE \<notin> set rest \<Longrightarrow> scan rest s = s\<lparr>current := current s @ rest\<rparr>"
proof (induction rest arbitrary: s)
  case Nil
  then show ?case by simp
next
  case (Cons c rest)
  have "scan (c # rest) s = scan rest (s\<lparr>current := current s @ [c]\<rparr>)"
    using Cons.prems by auto
  also have "\<dots> = s\<lparr>current := current s @ [c], current := (current s @ [c]) @ rest\<rparr>"
    using Cons.IH [of "s\<lparr>current := current s @ [c]\<rparr>"] Cons.prems by simp
  finally show ?case by simp
qed

lemma finish_endRow: "finish (endRow s) = rows (endRow s)"
  by (simp add: finish_def endRow_def Let_def)

lemma rows_endRow_finish: "rows (endRow s) = finish s"
  by (auto simp add: finish_def endRow_def Let_def someCell_def trim_Nil)

lemma finish_scan_NL: "finish (scan [NL] s) = finish s"
proof (cases "inQuotes s")
  case True
  have "finish (s\<lparr>current := current s @ [NL]\<rparr>) = finish s"
    by (auto simp add: finish_def trim_snoc_ws ws_NL Let_def someCell_def trim_Nil)
  then show ?thesis using True by (simp add: units_distinct)
next
  case False
  then show ?thesis by (simp add: units_distinct finish_endRow rows_endRow_finish)
qed

lemma scan_last_then_NL:
  "\<not> (c = CR \<and> \<not> inQuotes s) \<Longrightarrow> scan [c, NL] s = scan [NL] (scan [c] s)"
proof -
  assume a: "\<not> (c = CR \<and> \<not> inQuotes s)"
  have n: "nextChar [NL] = Some NL" "nextChar [] = None" by (simp_all add: nextChar_def)
  have l: "scan [c, NL] s = (if c = DQUOTE then
        (if inQuotes s \<and> nextChar [NL] = Some DQUOTE
         then scan (tl [NL]) (s\<lparr>current := current s @ [DQUOTE]\<rparr>)
         else scan [NL] (s\<lparr>inQuotes := \<not> inQuotes s\<rparr>))
      else if c = COMMA \<and> \<not> inQuotes s then
        scan [NL] (s\<lparr>currentRow := currentRow s @ [trim (current s)], current := []\<rparr>)
      else if (c = NL \<or> c = CR) \<and> \<not> inQuotes s then
        scan (if c = CR \<and> nextChar [NL] = Some NL then tl [NL] else [NL]) (endRow s)
      else scan [NL] (s\<lparr>current := current s @ [c]\<rparr>))"
    by (rule scan.simps(2))
  have r: "scan [c] s = (if c = DQUOTE then
        (if inQuotes s \<and> nextChar [] = Some DQUOTE
         then scan (tl []) (s\<lparr>current := current s @ [DQUOTE]\<rparr>)
         else scan [] (s\<lparr>inQuotes := \<not> inQuotes s\<rparr>))
      else if c = COMMA \<and> \<not> inQuotes s then
        scan [] (s\<lparr>currentRow := currentRow s @ [trim (current s)], current := []\<rparr>)
      else if (c = NL \<or> c = CR) \<and> \<not> inQuotes s then
        scan (if c = CR \<and> nextChar [] = Some NL then tl [] else []) (endRow s)
      else scan [] (s\<lparr>current := current s @ [c]\<rparr>))"
    by (rule scan.simps(2))
  show ?thesis
    unfolding l r n using a units_distinct by (auto simp del: scan.simps(2))
qed

lemma scan_CR_then_NL: "\<not> inQuotes s \<Longrightarrow> scan [CR, NL] s = scan [CR] s"
  by (simp add: units_distinct nextChar_def)

lemma finish_scan_snoc_NL: "finish (scan (inp @ [NL]) s) = finish (scan inp s)"
proof (induction inp s rule: scan.induct)
  case (1 s)
  show ?case using finish_scan_NL [of s] by simp
next
  case (2 c cs s)
  show ?case
  proof (cases cs)
    case Nil
    have g: "finish (scan [c, NL] s) = finish (scan [c] s)"
    proof (cases "c = CR \<and> \<not> inQuotes s")
      case True
      then show ?thesis using scan_CR_then_NL [of s] by (simp del: scan.simps)
    next
      case False
      then have "scan [c, NL] s = scan [NL] (scan [c] s)" by (rule scan_last_then_NL)
      then show ?thesis using finish_scan_NL [of "scan [c] s"] by (simp del: scan.simps)
    qed
    show ?thesis using g Nil by (simp del: scan.simps)
  next
    case (Cons d ds)
    have n: "nextChar (cs @ [NL]) = nextChar cs" "tl (cs @ [NL]) = tl cs @ [NL]"
      using Cons by (simp_all add: nextChar_def)
    have e: "(c # cs) @ [NL] = c # (cs @ [NL])" by simp
    show ?thesis
      unfolding e scan.simps(2) [of c "cs @ [NL]" s] scan.simps(2) [of c cs s] n
      using "2.IH" by (auto simp del: scan.simps)
  qed
qed

subsection \<open>The objects of the record parser\<close>

lemma rowObject_snoc:
  "rowObject (hs @ [h]) row = assign (rowObject hs row) h (cellOr row (length hs))"
  by (simp add: rowObject_def)

lemma rowObject_proto: "rowObject hs row (js ''__proto__'') = None"
  by (induction hs rule: rev_induct) (simp_all add: rowObject_snoc assign_def rowObject_def)

lemma rowObject_missing:
  "length row \<le> i \<Longrightarrow> i < length hs \<Longrightarrow> hs ! i \<noteq> js ''__proto__'' \<Longrightarrow>
   rowObject hs row (hs ! i) = Some []"
proof (induction hs rule: rev_induct)
  case Nil
  then show ?case by simp
next
  case (snoc h hs)
  show ?case
  proof (cases "i < length hs")
    case True
    then have k: "(hs @ [h]) ! i = hs ! i" by (simp add: nth_append)
    have "rowObject hs row (hs ! i) = Some []" using snoc True k by simp
    moreover have "cellOr row (length hs) = []" using snoc.prems True by (simp add: cellOr_def)
    ultimately show ?thesis unfolding k rowObject_snoc by (simp add: assign_def)
  next
    case False
    then have i: "i = length hs" using snoc.prems by simp
    then show ?thesis using snoc.prems unfolding rowObject_snoc
      by (simp add: assign_def cellOr_def)
  qed
qed

lemma rowObject_present:
  "i < length hs \<Longrightarrow> hs ! i \<noteq> js ''__proto__'' \<Longrightarrow>
   \<forall>j. i < j \<and> j < length hs \<longrightarrow> hs ! j \<noteq> hs ! i \<Longrightarrow>
   rowObject hs row (hs ! i) = Some (cellOr row i)"
proof (induction hs rule: rev_induct)
  case Nil
  then show ?case by simp
next
  case (snoc h hs)
  show ?case
  proof (cases "i < length hs")
    case True
    then have k: "(hs @ [h]) ! i = hs ! i" by (simp add: nth_append)
    have "i < length hs \<and> length hs < length (hs @ [h])" using True by simp
    then have "(hs @ [h]) ! length hs \<noteq> (hs @ [h]) ! i" using snoc.prems(3) by blast
    then have ne: "h \<noteq> hs ! i" using k by simp
    have "\<forall>j. i < j \<and> j < length hs \<longrightarrow> hs ! j \<noteq> hs ! i"
    proof (intro allI impI)
      fix j assume j: "i < j \<and> j < length hs"
      then have "i < j \<and> j < length (hs @ [h])" by simp
      then have "(hs @ [h]) ! j \<noteq> (hs @ [h]) ! i" using snoc.prems(3) by blast
      then show "hs ! j \<noteq> hs ! i" using j k by (simp add: nth_append)
    qed
    then have "rowObject hs row (hs ! i) = Some (cellOr row i)" using snoc True k by simp
    then show ?thesis unfolding k rowObject_snoc using ne by (simp add: assign_def)
  next
    case False
    then have i: "i = length hs" using snoc.prems by simp
    then show ?thesis using snoc.prems(2) unfolding rowObject_snoc by (simp add: assign_def)
  qed
qed

lemma parseCSV_live_parsedLines:
  "parseCSV_live inp =
     (case parsedLines inp of h # r # rs \<Rightarrow> map (rowObject h) (r # rs) | _ \<Rightarrow> [])"
proof -
  have "length (parsedLines inp) = length (linesOf inp)" by (simp add: parsedLines_def)
  then show ?thesis
    by (cases "parsedLines inp" rule: list.exhaust [case_product list.exhaust])
      (auto simp add: parseCSV_live_def split: list.splits)
qed

subsection \<open>The institutional pattern\<close>

lemma institutional_iff: "institutional s \<longleftrightarrow> (\<exists>local. local \<noteq> [] \<and> s = local @ js ''@rit.edu'')"
proof
  assume a: "institutional s"
  let ?n = "length s - length (js ''@rit.edu'')"
  have "s = take ?n s @ drop ?n s" by simp
  moreover have "take ?n s \<noteq> []" using a by (auto simp: institutional_def)
  ultimately show "\<exists>local. local \<noteq> [] \<and> s = local @ js ''@rit.edu''"
    using a unfolding institutional_def by metis
next
  assume "\<exists>local. local \<noteq> [] \<and> s = local @ js ''@rit.edu''"
  then show "institutional s" by (auto simp: institutional_def)
qed

section \<open>The two parsers side by side\<close>





subsection \<open>The field loop of the record parser\<close>














lemma lineLoop_other:
  "c \<noteq> DQUOTE \<Longrightarrow> c \<noteq> NL \<Longrightarrow>
   lineLoop (c # cs) l = lineLoop cs (l\<lparr>currentLine := currentLine l @ [c]\<rparr>)"
  by simp



subsection \<open>The simulation\<close>













lemma not_ws_COMMA: "\<not> isWhiteSpace COMMA"
  by (simp add: isWhiteSpace_def COMMA_def)






















section \<open>The claims about the table parser\<close>

text \<open>
  C1, as the code has it: in the table parser, inside a quoted field, a quote followed by
  a second quote puts exactly one quote into the current field and leaves \<open>inQuotes\<close> as
  it is (the state that goes on differs in \<open>current\<close> only, and both units are consumed).
  Hence a quoted field whose content \<open>x\<close> was written with its quotes doubled is read back
  as \<open>x\<close>, and the eight units \<open>a,"b""c"\<close> and a newline give the single row
  \<open>["a", "b\"c"]\<close>. The field loop of the record parser has no escaped quote: it appends
  both quotes to the field and flips its flag at each of them.
\<close>

theorem escaped_quote_literal:
  "(inQuotes s \<longrightarrow>
      scan (DQUOTE # DQUOTE # rest) s = scan rest (s\<lparr>current := current s @ [DQUOTE]\<rparr>)) \<and>
   (inQuotes s \<and> nextChar rest \<noteq> Some DQUOTE \<longrightarrow>
      scan (escape x @ DQUOTE # rest) s
        = scan rest (s\<lparr>current := current s @ x, inQuotes := False\<rparr>)) \<and>
   parseCSV (js ''a,'' @ [DQUOTE] @ js ''b'' @ [DQUOTE, DQUOTE] @ js ''c'' @ [DQUOTE, NL])
     = [[js ''a'', js ''b'' @ [DQUOTE] @ js ''c'']] \<and>
   fieldLoop (DQUOTE # rest) f
     = fieldLoop rest
         (f\<lparr>insideQuoteF := \<not> insideQuoteF f, currentField := currentField f @ [DQUOTE]\<rparr>) \<and>
   fieldLoop (DQUOTE # DQUOTE # rest) f
     = fieldLoop rest (f\<lparr>currentField := currentField f @ [DQUOTE, DQUOTE]\<rparr>)"
proof (intro conjI impI)
  show "parseCSV (js ''a,'' @ [DQUOTE] @ js ''b'' @ [DQUOTE, DQUOTE] @ js ''c'' @ [DQUOTE, NL])
     = [[js ''a'', js ''b'' @ [DQUOTE] @ js ''c'']]"
    by (simp add: eval_defs)
qed (simp_all add: nextChar_def scan_quoted_content)

theorem escaped_quote_literal_witness:
  "inQuotes (initial\<lparr>inQuotes := True\<rparr>) \<and>
   scan [DQUOTE, DQUOTE, COMMA] (initial\<lparr>inQuotes := True\<rparr>)
     = initial\<lparr>inQuotes := True, current := [DQUOTE, COMMA]\<rparr> \<and>
   nextChar [COMMA] \<noteq> Some DQUOTE \<and>
   scan (escape [COMMA, DQUOTE, NL] @ [DQUOTE, COMMA]) (initial\<lparr>inQuotes := True\<rparr>)
     = scan [COMMA] (initial\<lparr>current := [COMMA, DQUOTE, NL], inQuotes := False\<rparr>)"
  using escaped_quote_literal [of "initial\<lparr>inQuotes := True\<rparr>" "[COMMA]" "[COMMA, DQUOTE, NL]"]
  by (simp add: initial_def nextChar_def units_distinct)

text \<open>
  C1 as stated fails on the record parser. Inside a quoted field its field loop turns two
  quotes into two quotes of the field, the flag being flipped twice; on the units
  \<open>a,"b""c"\<close> and a newline its fields are \<open>a\<close> and \<open>b""c\<close>, and \<open>parseCSV_live\<close>, with
  a single line to read, returns no record at all.
\<close>

theorem escaped_quote_record_parser:
  "fieldLoop [DQUOTE, DQUOTE] \<lparr>fieldsF = [], currentField = [], insideQuoteF = True\<rparr>
     = \<lparr>fieldsF = [], currentField = [DQUOTE, DQUOTE], insideQuoteF = True\<rparr> \<and>
   parsedLines (js ''a,'' @ [DQUOTE] @ js ''b'' @ [DQUOTE, DQUOTE] @ js ''c'' @ [DQUOTE, NL])
     = [[js ''a'', js ''b'' @ [DQUOTE, DQUOTE] @ js ''c'']] \<and>
   parseCSV_live (js ''a,'' @ [DQUOTE] @ js ''b'' @ [DQUOTE, DQUOTE] @ js ''c'' @ [DQUOTE, NL]) = []"
proof -
  have p: "parsedLines (js ''a,'' @ [DQUOTE] @ js ''b'' @ [DQUOTE, DQUOTE] @ js ''c'' @ [DQUOTE, NL])
     = [[js ''a'', js ''b'' @ [DQUOTE, DQUOTE] @ js ''c'']]"
    by (simp add: live_defs)
  show ?thesis unfolding parseCSV_live_parsedLines p by simp
qed

text \<open>
  C2: outside a quoted field a newline ends the current row (\<open>endRow\<close>), and a carriage
  return followed by a newline ends it once, both units being consumed: the parser goes on
  exactly as after a lone newline, with no extra row and no carriage return left in a
  field; a text without quotes yields fields free of both units. Inside a quoted field
  a newline is appended to the field and the row goes on. The line loop of the record
  parser does the same: its line ends at a newline outside quotes, the carriage return
  before it is trimmed away, and a newline inside quotes stays in the line.
\<close>

theorem row_terminators:
  "(\<not> inQuotes s \<longrightarrow> scan (NL # rest) s = scan rest (endRow s)) \<and>
   (\<not> inQuotes s \<longrightarrow> scan (CR # NL # rest) s = scan rest (endRow s)) \<and>
   (inQuotes s \<longrightarrow> scan (NL # rest) s = scan rest (s\<lparr>current := current s @ [NL]\<rparr>)) \<and>
   (DQUOTE \<notin> set inp \<longrightarrow> list_all cellsClean (parseCSV inp)) \<and>
   (\<not> insideQuote l \<longrightarrow>
      lineLoop (NL # rest) l
        = lineLoop rest
            (l\<lparr>lines := (if trim (currentLine l) \<noteq> [] then lines l @ [trim (currentLine l)]
                          else lines l),
               currentLine := []\<rparr>)) \<and>
   (\<not> insideQuote l \<longrightarrow>
      lineLoop (CR # NL # rest) l
        = lineLoop rest
            (l\<lparr>lines := (if trim (currentLine l) \<noteq> [] then lines l @ [trim (currentLine l)]
                          else lines l),
               currentLine := []\<rparr>)) \<and>
   (insideQuote l \<longrightarrow>
      lineLoop (NL # rest) l = lineLoop rest (l\<lparr>currentLine := currentLine l @ [NL]\<rparr>))"
proof (intro conjI impI)
  show "list_all cellsClean (parseCSV inp)" if nq: "DQUOTE \<notin> set inp"
  proof -
    have "stClean initial" by (simp add: stClean_def initial_def cellsClean_def)
    then have c: "stClean (scan inp initial)" using nq by (simp add: scan_clean)
    then have "stClean (endRow (scan inp initial))" by (rule endRow_clean)
    then show ?thesis using c
      by (auto simp add: parseCSV_def finish_def endRow_def stClean_def Let_def)
  qed
qed (simp_all add: units_distinct nextChar_def trim_snoc_ws ws_CR)

theorem row_terminators_witness:
  "\<not> inQuotes initial \<and>
   scan [NL] (initial\<lparr>current := [COMMA]\<rparr>) = initial\<lparr>rows := [[[COMMA]]]\<rparr> \<and>
   scan [CR, NL] (initial\<lparr>current := [COMMA]\<rparr>) = initial\<lparr>rows := [[[COMMA]]]\<rparr> \<and>
   scan [NL] (initial\<lparr>inQuotes := True\<rparr>) = initial\<lparr>inQuotes := True, current := [NL]\<rparr> \<and>
   DQUOTE \<notin> set [COMMA, CR, NL] \<and> list_all cellsClean (parseCSV [COMMA, CR, NL]) \<and>
   lineLoop [NL] \<lparr>lines = [], currentLine = [COMMA], insideQuote = False\<rparr>
     = \<lparr>lines = [[COMMA]], currentLine = [], insideQuote = False\<rparr> \<and>
   lineLoop [CR, NL] \<lparr>lines = [], currentLine = [COMMA], insideQuote = False\<rparr>
     = \<lparr>lines = [[COMMA]], currentLine = [], insideQuote = False\<rparr> \<and>
   lineLoop [NL] \<lparr>lines = [], currentLine = [], insideQuote = True\<rparr>
     = \<lparr>lines = [], currentLine = [NL], insideQuote = True\<rparr>"
  using row_terminators [of "initial\<lparr>current := [COMMA]\<rparr>" "[]" "[COMMA, CR, NL]"
      "\<lparr>lines = [], currentLine = [COMMA], insideQuote = False\<rparr>"]
    row_terminators [of "initial\<lparr>inQuotes := True\<rparr>" "[]" "[]"
      "\<lparr>lines = [], currentLine = [], insideQuote = True\<rparr>"]
  by (simp add: initial_def units_distinct endRow_def someCell_def trim_def isWhiteSpace_def unit_defs)

text \<open>
  C3: a comma inside a quoted field is appended to the field, a comma outside ends the
  field (the trimmed field joins the row), and a whole quoted content free of quotes,
  commas and newlines included, becomes part of one field. The text \<open>a,"b,c"\<close> and a
  newline gives the single row \<open>["a", "b,c"]\<close>. The field loop of the record parser treats
  commas the same way.
\<close>

theorem comma_separator:
  "(inQuotes s \<longrightarrow> scan (COMMA # rest) s = scan rest (s\<lparr>current := current s @ [COMMA]\<rparr>)) \<and>
   (\<not> inQuotes s \<longrightarrow>
      scan (COMMA # rest) s
        = scan rest (s\<lparr>currentRow := currentRow s @ [trim (current s)], current := []\<rparr>)) \<and>
   (inQuotes s \<and> DQUOTE \<notin> set x \<and> nextChar rest \<noteq> Some DQUOTE \<longrightarrow>
      scan (x @ DQUOTE # rest) s = scan rest (s\<lparr>current := current s @ x, inQuotes := False\<rparr>)) \<and>
   parseCSV (js ''a,'' @ [DQUOTE] @ js ''b,c'' @ [DQUOTE, NL]) = [[js ''a'', js ''b,c'']] \<and>
   (insideQuoteF f \<longrightarrow>
      fieldLoop (COMMA # rest) f = fieldLoop rest (f\<lparr>currentField := currentField f @ [COMMA]\<rparr>)) \<and>
   (\<not> insideQuoteF f \<longrightarrow>
      fieldLoop (COMMA # rest) f
        = fieldLoop rest
            (f\<lparr>fieldsF := fieldsF f @ [unwrap (trim (currentField f))], currentField := []\<rparr>)) \<and>
   parsedLines (js ''a,'' @ [DQUOTE] @ js ''b,c'' @ [DQUOTE, NL]) = [[js ''a'', js ''b,c'']]"
proof (intro conjI impI)
  show "parseCSV (js ''a,'' @ [DQUOTE] @ js ''b,c'' @ [DQUOTE, NL]) = [[js ''a'', js ''b,c'']]"
    by (simp add: eval_defs)
  show "parsedLines (js ''a,'' @ [DQUOTE] @ js ''b,c'' @ [DQUOTE, NL]) = [[js ''a'', js ''b,c'']]"
    by (simp add: live_defs)
  show "scan (x @ DQUOTE # rest) s = scan rest (s\<lparr>current := current s @ x, inQuotes := False\<rparr>)"
    if "inQuotes s \<and> DQUOTE \<notin> set x \<and> nextChar rest \<noteq> Some DQUOTE"
    using that scan_quoted_content [of s rest x] by (simp add: escape_id)
qed (simp_all add: units_distinct)

theorem comma_separator_witness:
  "inQuotes (initial\<lparr>inQuotes := True\<rparr>) \<and>
   scan [COMMA] (initial\<lparr>inQuotes := True\<rparr>) = initial\<lparr>inQuotes := True, current := [COMMA]\<rparr> \<and>
   \<not> inQuotes initial \<and>
   scan [COMMA] initial = initial\<lparr>currentRow := [[]]\<rparr> \<and>
   DQUOTE \<notin> set [COMMA, NL] \<and> nextChar [] \<noteq> Some DQUOTE \<and>
   scan ([COMMA, NL] @ [DQUOTE]) (initial\<lparr>inQuotes := True\<rparr>) = initial\<lparr>current := [COMMA, NL]\<rparr> \<and>
   insideQuoteF \<lparr>fieldsF = [], currentField = [], insideQuoteF = True\<rparr> \<and>
   fieldLoop [COMMA] \<lparr>fieldsF = [], currentField = [], insideQuoteF = True\<rparr>
     = \<lparr>fieldsF = [], currentField = [COMMA], insideQuoteF = True\<rparr> \<and>
   \<not> insideQuoteF \<lparr>fieldsF = [], currentField = [], insideQuoteF = False\<rparr> \<and>
   fieldLoop [COMMA] \<lparr>fieldsF = [], currentField = [], insideQuoteF = False\<rparr>
     = \<lparr>fieldsF = [[]], currentField = [], insideQuoteF = False\<rparr>"
  using comma_separator [of "initial\<lparr>inQuotes := True\<rparr>" "[]" "[COMMA, NL]"
      "\<lparr>fieldsF = [], currentField = [], insideQuoteF = True\<rparr>"]
    comma_separator [of initial "[]" "[]" "\<lparr>fieldsF = [], currentField = [], insideQuoteF = False\<rparr>"]
  by (simp add: initial_def nextChar_def units_distinct trim_Nil unwrap_def)

text \<open>
  C4: a row whose fields are all empty after trimming is never in the table that
  \<open>parseCSV\<close> returns: the end-of-row branch does not store such a row, and the stored
  fields are trimmed already. The empty text gives the empty table.
\<close>

theorem blank_rows_dropped:
  "((\<forall>cell\<in>set row. trim cell = []) \<longrightarrow> row \<notin> set (parseCSV inp)) \<and>
   (\<not> someCell (currentRow s @ [trim (current s)]) \<longrightarrow> rows (endRow s) = rows s) \<and>
   parseCSV [] = []"
proof (intro conjI impI)
  show "row \<notin> set (parseCSV inp)" if blank: "\<forall>cell\<in>set row. trim cell = []"
  proof
    assume "row \<in> set (parseCSV inp)"
    then have "someCell row \<and> list_all trimmed row"
      using parseCSV_trimmed [of inp] by (simp add: list_all_iff)
    then obtain cell where "cell \<in> set row" "cell \<noteq> []" "trim cell = cell"
      by (auto simp: someCell_def list_ex_iff list_all_iff trimmed_def)
    then show False using blank by auto
  qed
  show "parseCSV [] = []" by (simp add: eval_defs)
qed (simp add: endRow_def)

theorem blank_rows_dropped_witness:
  "[[], []] \<notin> set (parseCSV ([COMMA, NL] @ js ''a'')) \<and>
   rows (endRow (initial\<lparr>currentRow := [[]], current := [NL]\<rparr>)) = []"
  using blank_rows_dropped [of "[[], []]" "[COMMA, NL] @ js ''a''"
      "initial\<lparr>currentRow := [[]], current := [NL]\<rparr>"]
  by (simp add: trim_Nil initial_def someCell_def trim_snoc_ws ws_NL [unfolded NL_def] NL_def trim_def isWhiteSpace_def)

text \<open>
  C5: \<open>parseCSV\<close> is a total function (its loop is defined with a termination proof, and
  no branch of the source throws: a read past the end of the text is \<open>undefined\<close>) and
  returns a table for every text. After an unmatched quote
  all the remaining text joins the current field. The code after the loop emits the last
  field and the last row whenever the row has a non-empty field, and a text gives the same
  table with and without a final newline.
\<close>

theorem total_and_final_row:
  "(\<exists>table. parseCSV inp = table) \<and>
   (inQuotes s \<and> DQUOTE \<notin> set rest \<longrightarrow> scan rest s = s\<lparr>current := current s @ rest\<rparr>) \<and>
   (someCell (currentRow s @ [trim (current s)]) \<longrightarrow>
      finish s = rows s @ [currentRow s @ [trim (current s)]]) \<and>
   parseCSV (inp @ [NL]) = parseCSV inp \<and>
   parseCSV (js ''a,'' @ [DQUOTE] @ js ''b,c'' @ [NL] @ js ''d'')
     = [[js ''a'', js ''b,c'' @ [NL] @ js ''d'']]"
proof (intro conjI impI)
  show "parseCSV (inp @ [NL]) = parseCSV inp"
    by (simp add: parseCSV_def finish_scan_snoc_NL)
  show "parseCSV (js ''a,'' @ [DQUOTE] @ js ''b,c'' @ [NL] @ js ''d'')
     = [[js ''a'', js ''b,c'' @ [NL] @ js ''d'']]"
    by (simp add: eval_defs)
  show "finish s = rows s @ [currentRow s @ [trim (current s)]]"
    if "someCell (currentRow s @ [trim (current s)])"
    using that by (auto simp add: finish_def someCell_def trim_Nil)
qed (simp_all add: scan_unterminated)

theorem total_and_final_row_witness:
  "scan (js ''b,'' @ [NL]) (initial\<lparr>inQuotes := True\<rparr>)
     = initial\<lparr>inQuotes := True, current := js ''b,'' @ [NL]\<rparr> \<and>
   finish (initial\<lparr>currentRow := [js ''a''], current := js ''b ''\<rparr>) = [[js ''a'', js ''b'']] \<and>
   parseCSV (js ''a,b'' @ [NL]) = parseCSV (js ''a,b'')"
  using total_and_final_row [of "js ''a,b''" "initial\<lparr>inQuotes := True\<rparr>" "js ''b,'' @ [NL]"]
    total_and_final_row [of "[]" "initial\<lparr>currentRow := [js ''a''], current := js ''b ''\<rparr>" "[]"]
  by (simp add: initial_def someCell_def trim_def isWhiteSpace_def js_def unit_defs)

text \<open>
  C9: parsing the seven units \<open>a,b\<close>, newline, \<open>c,d\<close> gives exactly the two rows
  \<open>["a", "b"]\<close> and \<open>["c", "d"]\<close>.
\<close>

theorem parseCSV_two_rows:
  "parseCSV (js ''a,b'' @ [NL] @ js ''c,d'') = [[js ''a'', js ''b''], [js ''c'', js ''d'']]"
  by (simp add: eval_defs)

section \<open>The claims about the records of the record parser\<close>

text \<open>
  C6, as the code has it: the object built for a data row is keyed by the header names.
  For a header other than \<open>__proto__\<close>, looking up the header of a missing trailing field
  yields the empty string, and a field present in the row is found under the header at its
  position when no later header has the same name. The result of \<open>parseCSV_live\<close> is the
  list of these objects, one for each parsed line after the first.
\<close>

theorem record_lookup:
  "(i < length headers \<and> headers ! i \<noteq> js ''__proto__'' \<and> length row \<le> i \<longrightarrow>
      rowObject headers row (headers ! i) = Some []) \<and>
   (i < length headers \<and> headers ! i \<noteq> js ''__proto__'' \<and> i < length row \<and>
    (\<forall>j. i < j \<and> j < length headers \<longrightarrow> headers ! j \<noteq> headers ! i) \<longrightarrow>
      rowObject headers row (headers ! i) = Some (row ! i)) \<and>
   (parsedLines inp = headers # dataRows \<and> dataRows \<noteq> [] \<longrightarrow>
      parseCSV_live inp = map (rowObject headers) dataRows)"
proof (intro conjI impI)
  show "parseCSV_live inp = map (rowObject headers) dataRows"
    if "parsedLines inp = headers # dataRows \<and> dataRows \<noteq> []"
    using that by (cases dataRows) (simp_all add: parseCSV_live_parsedLines)
qed (simp_all add: rowObject_missing rowObject_present cellOr_def)

theorem record_lookup_witness:
  "parsedLines (js ''a,b,c'' @ [NL] @ js ''x,y'') = [js ''a'', js ''b'', js ''c''] # [[js ''x'', js ''y'']] \<and>
   parseCSV_live (js ''a,b,c'' @ [NL] @ js ''x,y'')
     = map (rowObject [js ''a'', js ''b'', js ''c'']) [[js ''x'', js ''y'']] \<and>
   rowObject [js ''a'', js ''b'', js ''c''] [js ''x'', js ''y''] (js ''c'') = Some [] \<and>
   rowObject [js ''a'', js ''b'', js ''c''] [js ''x'', js ''y''] (js ''b'') = Some (js ''y'')"
proof -
  have p: "parsedLines (js ''a,b,c'' @ [NL] @ js ''x,y'')
      = [js ''a'', js ''b'', js ''c''] # [[js ''x'', js ''y'']]"
    by (simp add: live_defs)
  have d: "js ''a'' \<noteq> js ''b''" "js ''c'' \<noteq> js ''b''" "js ''b'' \<noteq> js ''__proto__''"
    "js ''c'' \<noteq> js ''__proto__''"
    by (simp_all add: js_def)
  show ?thesis
    using p d
      record_lookup [of 2 "[js ''a'', js ''b'', js ''c'']" "[js ''x'', js ''y'']"
        "js ''a,b,c'' @ [NL] @ js ''x,y''" "[[js ''x'', js ''y'']]"]
      record_lookup [of 1 "[js ''a'', js ''b'', js ''c'']" "[js ''x'', js ''y'']"
        "js ''a,b,c'' @ [NL] @ js ''x,y''" "[[js ''x'', js ''y'']]"]
    by (simp add: less_Suc_eq nth_Cons')
qed

text \<open>
  C6 as stated fails on two inputs, each with a header row longer than the data row. With
  the headers \<open>a\<close>, \<open>a\<close>, \<open>b\<close> and the row \<open>x\<close>, \<open>y\<close>, the field \<open>x\<close> at position 0 is lost:
  the object holds \<open>y\<close> under \<open>a\<close>, one value for one name. With the headers \<open>i\<close>,
  \<open>__proto__\<close> and the row \<open>x\<close>, the missing field is not the empty string: the assignment
  of the source is there for every header, but for this name it stores nothing.
\<close>

theorem record_lookup_counterexample:
  "parsedLines (js ''a,a,b'' @ [NL] @ js ''x,y'')
     = [[js ''a'', js ''a'', js ''b''], [js ''x'', js ''y'']] \<and>
   length (parseCSV_live (js ''a,a,b'' @ [NL] @ js ''x,y'')) = 1 \<and>
   hd (parseCSV_live (js ''a,a,b'' @ [NL] @ js ''x,y'')) (js ''a'') = Some (js ''y'') \<and>
   js ''y'' \<noteq> js ''x'' \<and>
   parsedLines (js ''i,__proto__'' @ [NL] @ js ''x'') = [[js ''i'', js ''__proto__''], [js ''x'']] \<and>
   length (parseCSV_live (js ''i,__proto__'' @ [NL] @ js ''x'')) = 1 \<and>
   hd (parseCSV_live (js ''i,__proto__'' @ [NL] @ js ''x'')) (js ''__proto__'') = None"
proof -
  have a: "parsedLines (js ''a,a,b'' @ [NL] @ js ''x,y'')
      = [[js ''a'', js ''a'', js ''b''], [js ''x'', js ''y'']]"
    by (simp add: live_defs)
  have b: "parsedLines (js ''i,__proto__'' @ [NL] @ js ''x'') = [[js ''i'', js ''__proto__''], [js ''x'']]"
    by (simp add: live_defs)
  have c: "rowObject [js ''a'', js ''a'', js ''b''] [js ''x'', js ''y''] (js ''a'') = Some (js ''y'')"
    by (simp add: rowObject_def assign_def cellOr_def js_def)
  have d: "rowObject [js ''i'', js ''__proto__''] [js ''x''] (js ''__proto__'') = None"
    by (simp add: rowObject_def assign_def cellOr_def js_def)
  have e: "js ''y'' \<noteq> js ''x''" by (simp add: js_def)
  show ?thesis unfolding parseCSV_live_parsedLines a b using c d e by simp
qed

section \<open>The claims about the form validator\<close>

text \<open>
  C7: the result of \<open>validateForm\<close> has an entry for a field exactly when the field is
  invalid (empty after trimming, or an email off the institutional pattern); a form whose
  name is empty and whose other fields are valid gets the name error and no other entry.
\<close>

theorem validateForm_entries:
  "(validateForm d f \<noteq> None \<longleftrightarrow> invalid d f) \<and>
   (name d = [] \<and> (\<forall>g. g \<noteq> Name \<longrightarrow> \<not> invalid d g) \<longrightarrow>
      validateForm d = [Name \<mapsto> Required])"
proof (intro conjI impI)
  show "validateForm d f \<noteq> None \<longleftrightarrow> invalid d f"
    by (cases f) (simp_all add: validateForm_def invalid_def requireField_def fieldValue_def Let_def)
  show "validateForm d = [Name \<mapsto> Required]"
    if a: "name d = [] \<and> (\<forall>g. g \<noteq> Name \<longrightarrow> \<not> invalid d g)"
  proof -
    have "\<not> invalid d Email" "\<not> invalid d Major" "\<not> invalid d Year" "\<not> invalid d MentorGoals"
      "\<not> invalid d Hobbies" using a by simp_all
    then show ?thesis using a
      by (simp add: validateForm_def invalid_def requireField_def fieldValue_def trim_Nil Let_def)
  qed
qed

theorem validateForm_entries_witness:
  "validateForm (sampleForm\<lparr>name := []\<rparr>) Name \<noteq> None \<and> invalid (sampleForm\<lparr>name := []\<rparr>) Name \<and>
   validateForm (sampleForm\<lparr>name := []\<rparr>) = [Name \<mapsto> Required]"
proof -
  have v: "\<not> invalid (sampleForm\<lparr>name := []\<rparr>) g" if "g \<noteq> Name" for g
    using that
    by (cases g)
      (simp_all add: invalid_def fieldValue_def sampleForm_def institutional_def trim_def
        isWhiteSpace_def js_def)
  have i: "invalid (sampleForm\<lparr>name := []\<rparr>) Name"
    by (simp add: invalid_def fieldValue_def trim_Nil)
  show ?thesis
    using v i validateForm_entries [of "sampleForm\<lparr>name := []\<rparr>" Name] by simp
qed

text \<open>
  C8: the email \<open>abc1234@rit.edu\<close> gets no email error and the email \<open>abc1234@gmail.com\<close>
  gets one, whatever the other fields are.
\<close>

theorem validateForm_email:
  "(email d = js ''abc1234@rit.edu'' \<longrightarrow> validateForm d Email = None) \<and>
   (email d = js ''abc1234@gmail.com'' \<longrightarrow> validateForm d Email = Some NotInstitutional)"
proof (intro conjI impI)
  have a: "institutional (js ''abc1234@rit.edu'')" "trim (js ''abc1234@rit.edu'') \<noteq> []"
    by (simp_all add: institutional_def trim_def isWhiteSpace_def js_def)
  have b: "\<not> institutional (js ''abc1234@gmail.com'')" "trim (js ''abc1234@gmail.com'') \<noteq> []"
    by (simp_all add: institutional_def trim_def isWhiteSpace_def js_def)
  show "validateForm d Email = None" if "email d = js ''abc1234@rit.edu''"
    using that a by (simp add: validateForm_def requireField_def Let_def)
  show "validateForm d Email = Some NotInstitutional" if "email d = js ''abc1234@gmail.com''"
    using that b by (simp add: validateForm_def requireField_def Let_def)
qed

theorem validateForm_email_witness:
  "validateForm sampleForm Email = None \<and>
   validateForm (sampleForm\<lparr>email := js ''abc1234@gmail.com''\<rparr>) Email = Some NotInstitutional"
  using validateForm_email [of sampleForm]
    validateForm_email [of "sampleForm\<lparr>email := js ''abc1234@gmail.com''\<rparr>"]
  by (simp add: sampleForm_def)

section \<open>The comparison of the two parsers\<close>




end
